theory Spec2Isabelle
  imports Main "HOL-Library.Word"
begin

unbundle bit_operations_syntax

section \<open>The full-step rotary encoder decoder of rotencPi.c\<close>

subsection \<open>Data\<close>

type_synonym uchar = "8 word"

text \<open>
  Modelled from the spec: the header rotencPi.h, which declares the global
  \<^verbatim>\<open>encoder\<close> of type \<^verbatim>\<open>struct encoderStruct\<close>, is not among the sources. The
  fields are the four that rotencPi.c reads and writes; the pin numbers and the
  state are bytes (\<^verbatim>\<open>encoderInit\<close> stores \<^verbatim>\<open>unsigned char\<close> pins, the state is
  assigned from an \<^verbatim>\<open>unsigned char\<close> table), the direction is a signed integer
  holding -1, 0 or +1.
\<close>

record encoderStruct =
  gpioA :: uchar
  gpioB :: uchar
  state :: uchar
  direction :: int

text \<open>The table \<^verbatim>\<open>encoderStateTable[7][4]\<close>, row by row as in the source.\<close>

definition encoderStateTable :: "uchar list list" where
  "encoderStateTable =
     [[0x0, 0x2, 0x4, 0x0],
      [0x3, 0x0, 0x1, 0x10],
      [0x3, 0x2, 0x0, 0x0],
      [0x3, 0x2, 0x1, 0x0],
      [0x6, 0x0, 0x4, 0x0],
      [0x6, 0x5, 0x0, 0x20],
      [0x6, 0x5, 0x4, 0x0]]"

text \<open>
  An array read \<^verbatim>\<open>encoderStateTable[r][c]\<close>. C leaves a read outside the
  7 by 4 array undefined; here it is the value \<open>None\<close>.
\<close>

definition table_at :: "nat \<Rightarrow> nat \<Rightarrow> uchar option" where
  "table_at r c =
     (if r < length encoderStateTable \<and> c < length (encoderStateTable ! r)
      then Some (encoderStateTable ! r ! c) else None)"

text \<open>
  \<^verbatim>\<open>digitalRead\<close> of wiringPi returns the level of a pin as the integer 1 (HIGH)
  or 0 (LOW). The level itself comes from the hardware and is an input of the model.
\<close>

definition digitalRead :: "bool \<Rightarrow> int" where
  "digitalRead level = (if level then 1 else 0)"

subsection \<open>The interrupt routine\<close>

text \<open>
  \<^verbatim>\<open>unsigned char code = ( digitalRead( encoder.gpioB ) << 1 ) | digitalRead( encoder.gpioA );\<close>
  The right-hand side is computed on \<^verbatim>\<open>int\<close> and then narrowed to a byte.
\<close>

definition encoderCode :: "bool \<Rightarrow> bool \<Rightarrow> uchar" where
  "encoderCode levelA levelB =
     word_of_int (push_bit 1 (digitalRead levelB) OR digitalRead levelA)"

text \<open>
  \<^verbatim>\<open>encoderDirection\<close>: reads both pins, replaces \<^verbatim>\<open>encoder.state\<close> by the table
  entry and sets \<^verbatim>\<open>encoder.direction\<close> from the bits \<^verbatim>\<open>0x30\<close> of the new state.
  The two pin levels are the arguments; the result is the updated global, or
  \<open>None\<close> when the table is read out of bounds.
\<close>

definition encoderDirection :: "encoderStruct \<Rightarrow> bool \<Rightarrow> bool \<Rightarrow> encoderStruct option" where
  "encoderDirection e levelA levelB =
     (let code = encoderCode levelA levelB in
      case table_at (unat (state e AND 0xf)) (unat code) of
        None \<Rightarrow> None
      | Some next \<Rightarrow>
          (let dir = next AND 0x30 in
           Some (e\<lparr>state := next,
                   direction := (if dir \<noteq> 0 then (if dir = 0x10 then - 1 else 1) else 0)\<rparr>)))"

text \<open>
  The global \<^verbatim>\<open>encoder\<close> has static storage and no initialiser, so the program
  starts with every field zero; \<^verbatim>\<open>encoderInit\<close> then stores the two pin numbers.
  (Its calls into wiringPi configure the hardware and are not part of the model.)
\<close>

definition encoder_zero :: encoderStruct where
  "encoder_zero = \<lparr>gpioA = 0, gpioB = 0, state = 0, direction = 0\<rparr>"

definition encoderInit :: "uchar \<Rightarrow> uchar \<Rightarrow> encoderStruct \<Rightarrow> encoderStruct" where
  "encoderInit gA gB e = e\<lparr>gpioA := gA, gpioB := gB\<rparr>"

text \<open>
  A run of the interrupt routine over a list of sampled level pairs \<open>(levelA, levelB)\<close>,
  one call per pair. It returns the value of the global after each call, in order
  (so \<open>map state\<close> of the result is the sequence of stored states and
  \<open>map direction\<close> the sequence of reported directions), or \<open>None\<close> as soon as one
  call reads outside the table.
\<close>

fun encoderRun :: "encoderStruct \<Rightarrow> (bool \<times> bool) list \<Rightarrow> encoderStruct list option" where
  "encoderRun e [] = Some []"
| "encoderRun e ((a, b) # ps) =
     (case encoderDirection e a b of
        None \<Rightarrow> None
      | Some e' \<Rightarrow>
          (case encoderRun e' ps of
             None \<Rightarrow> None
           | Some es \<Rightarrow> Some (e' # es)))"

text \<open>The globals the program can be in: any number of interrupts after \<^verbatim>\<open>encoderInit\<close>.\<close>

inductive reachable :: "encoderStruct \<Rightarrow> bool" where
  init: "reachable (encoderInit gA gB encoder_zero)"
| step: "reachable e \<Longrightarrow> encoderDirection e a b = Some e' \<Longrightarrow> reachable e'"

subsection \<open>Sample sequences\<close>

text \<open>
  One detent of the phase cycle 00, 01, 11, 10, 00 of the pair \<open>(A, B)\<close>: the decoder
  rests at 00 and is called once for each of the four following phases. The second
  list is the cycle 00, 10, 11, 01, 00 run the other way.
\<close>

definition detent_fwd :: "(bool \<times> bool) list" where
  "detent_fwd = [(False, True), (True, True), (True, False), (False, False)]"

definition detent_bwd :: "(bool \<times> bool) list" where
  "detent_bwd = [(True, False), (True, True), (False, True), (False, False)]"

text \<open>
  The detent of the table's own resting phase 11 (both pins pulled up), in the order
  that walks the rows 2, 3, 1 and ends on the entry \<^verbatim>\<open>0x10\<close>, and in the order that
  walks the rows 4, 6, 5 and ends on the entry \<^verbatim>\<open>0x20\<close>.
\<close>

definition detent_rest_cw :: "(bool \<times> bool) list" where
  "detent_rest_cw = [(True, False), (False, False), (False, True), (True, True)]"

definition detent_rest_acw :: "(bool \<times> bool) list" where
  "detent_rest_acw = [(False, True), (False, False), (True, False), (True, True)]"

text \<open>
  The number of calls a row of the table is away from reporting a direction:
  rows 1 and 5 hold the flagged entries, rows 3 and 6 lead to them, rows 2 and 4
  lead to those, and every other row is four calls away.
\<close>

definition calls_to_event :: "uchar \<Rightarrow> nat" where
  "calls_to_event s =
     (let r = s AND 0xf in
      if r = 1 \<or> r = 5 then 1
      else if r = 3 \<or> r = 6 then 2
      else if r = 2 \<or> r = 4 then 3
      else 4)"

text \<open>
  The sample that a row was entered on. Every entry of the table with a non-zero low
  nibble stands in one column only: rows 3 and 6 are entered on code 0, rows 2 and 5
  on code 1, rows 1 and 4 on code 2. Row 0 is entered from every column.
\<close>

definition entered_on :: "uchar \<Rightarrow> bool \<times> bool \<Rightarrow> bool" where
  "entered_on s p =
     (let r = s AND 0xf; c = encoderCode (fst p) (snd p) in
      r = 0 \<or> ((r = 3 \<or> r = 6) \<and> c = 0) \<or>
      ((r = 2 \<or> r = 5) \<and> c = 1) \<or> ((r = 1 \<or> r = 4) \<and> c = 2))"

text \<open>Row 0 counts as entered at rest when the sample was 00 or 11.\<close>

definition rest_on :: "uchar \<Rightarrow> bool \<times> bool \<Rightarrow> bool" where
  "rest_on s p =
     (let r = s AND 0xf; c = encoderCode (fst p) (snd p) in
      r = 1 \<or> r = 2 \<or> r = 3 \<or> r = 4 \<or> r = 5 \<or> r = 6 \<or> c = 0 \<or> c = 3)"

section \<open>The two-bit transition decoder \<^verbatim>\<open>encoderPulse\<close>\<close>

text \<open>
  The volume control program (kept in the repository under the name
  ssd1322-spi-overlay.dts) decodes the same two pins by comparing the present
  two-bit code with the previous one. Its globals are \<^verbatim>\<open>static volatile int\<close>,
  32 bits wide.
  The global \<^verbatim>\<open>encoded\<close> is hidden inside \<^verbatim>\<open>encoderPulse\<close> by a local of the same
  name and never written.
\<close>

type_synonym cint = "32 word"

record pulseGlobals =
  encoderPos :: cint
  lastEncoded :: cint
  encoded :: cint
  inCriticalSection :: bool

text \<open>\<^verbatim>\<open>int encoded = (MSB << 1) | LSB;\<close> with pin A read into MSB and pin B into LSB.\<close>

definition pulseEncoded :: "bool \<Rightarrow> bool \<Rightarrow> cint" where
  "pulseEncoded levelA levelB =
     (let MSB = word_of_int (digitalRead levelA); LSB = word_of_int (digitalRead levelB)
      in push_bit 1 MSB OR LSB)"

text \<open>\<^verbatim>\<open>int sum = (lastEncoded << 2) | encoded;\<close>\<close>

definition pulseSum :: "cint \<Rightarrow> cint \<Rightarrow> cint" where
  "pulseSum prev enc = push_bit 2 prev OR enc"

text \<open>
  \<^verbatim>\<open>encoderPulse\<close>: returns at once when the busy flag is set; otherwise sets the
  flag, compares the previous and the present code, counts up or down, stores the
  present code and clears the flag.
\<close>

definition encoderPulse :: "pulseGlobals \<Rightarrow> bool \<Rightarrow> bool \<Rightarrow> pulseGlobals" where
  "encoderPulse g levelA levelB =
     (if inCriticalSection g then g
      else
        let g1 = g\<lparr>inCriticalSection := True\<rparr>;
            enc = pulseEncoded levelA levelB;
            sum = pulseSum (lastEncoded g1) enc;
            g2 = (if sum = 0b1101 \<or> sum = 0b0100 \<or> sum = 0b0010 \<or> sum = 0b1011
                  then g1\<lparr>encoderPos := encoderPos g1 + 1\<rparr>
                  else if sum = 0b1110 \<or> sum = 0b0111 \<or> sum = 0b0001 \<or> sum = 0b1000
                  then g1\<lparr>encoderPos := encoderPos g1 - 1\<rparr>
                  else g1)
        in g2\<lparr>lastEncoded := enc, inCriticalSection := False\<rparr>)"

section \<open>Facts about the table\<close>

lemma row_cases:
  "r < (7::nat) \<Longrightarrow> r = 0 \<or> r = 1 \<or> r = 2 \<or> r = 3 \<or> r = 4 \<or> r = 5 \<or> r = 6"
  by arith

lemma col_cases: "c < (4::nat) \<Longrightarrow> c = 0 \<or> c = 1 \<or> c = 2 \<or> c = 3"
  by arith

lemma unat_encoderCode:
  "unat (encoderCode a b) = (if b then 2 else 0) + (if a then 1 else 0)"
  by (cases a; cases b; simp add: encoderCode_def digitalRead_def)

lemma encoderCode_less: "unat (encoderCode a b) < 4"
  by (simp add: unat_encoderCode)

lemma table_at_Some:
  "r < 7 \<Longrightarrow> c < 4 \<Longrightarrow> table_at r c = Some (encoderStateTable ! r ! c)"
  by (drule row_cases, drule col_cases) (auto simp: table_at_def encoderStateTable_def)

lemma table_at_row: "table_at r c = Some v \<Longrightarrow> r < 7"
  by (simp add: table_at_def encoderStateTable_def split: if_splits)

lemma table_entry_row:
  "r < 7 \<Longrightarrow> c < 4 \<Longrightarrow> unat ((encoderStateTable ! r ! c) AND 0xf) < 7"
  by (drule row_cases, drule col_cases) (auto simp: encoderStateTable_def)

lemma table_entry_dir:
  "r < 7 \<Longrightarrow> c < 4 \<Longrightarrow> (encoderStateTable ! r ! c) AND 0x30 \<noteq> 0 \<Longrightarrow>
     (encoderStateTable ! r ! c) AND 0xf = 0 \<and> (r = 1 \<or> r = 5) \<and> c = 3"
  by (drule row_cases, drule col_cases) (auto simp: encoderStateTable_def)

lemma table_entry_flags:
  "r < 7 \<Longrightarrow> c < 4 \<Longrightarrow>
     (encoderStateTable ! r ! c) AND 0x30 = 0 \<or>
     (encoderStateTable ! r ! c) AND 0x30 = 0x10 \<or>
     (encoderStateTable ! r ! c) AND 0x30 = 0x20"
  by (drule row_cases, drule col_cases) (auto simp: encoderStateTable_def)

section \<open>One call of \<^verbatim>\<open>encoderDirection\<close>\<close>

lemma encoderDirection_row:
  assumes "unat (state e AND 0xf) < 7"
  shows "encoderDirection e a b =
     Some (e\<lparr>state := encoderStateTable ! unat (state e AND 0xf) ! unat (encoderCode a b),
             direction :=
               (let dir = (encoderStateTable ! unat (state e AND 0xf) ! unat (encoderCode a b)) AND 0x30
                in if dir \<noteq> 0 then (if dir = 0x10 then - 1 else 1) else 0)\<rparr>)"
  using table_at_Some [OF assms encoderCode_less [of a b]]
  by (simp add: encoderDirection_def Let_def)

lemma encoderDirection_Some_row:
  "encoderDirection e a b = Some e' \<Longrightarrow> unat (state e AND 0xf) < 7"
  by (auto simp: encoderDirection_def Let_def split: option.splits dest: table_at_row)

lemma encoderDirection_next_row:
  assumes "encoderDirection e a b = Some e'"
  shows "unat (state e' AND 0xf) < 7"
proof -
  have r: "unat (state e AND 0xf) < 7" using assms by (rule encoderDirection_Some_row)
  from encoderDirection_row [OF r, of a b] assms
  have "state e' = encoderStateTable ! unat (state e AND 0xf) ! unat (encoderCode a b)"
    by auto
  then show ?thesis using table_entry_row [OF r encoderCode_less [of a b]] by simp
qed

text \<open>
  C1. Whatever the two levels, and whatever the prior global as long as the low nibble
  of its state names one of the seven rows (which it does in every global the
  program can be in, see C6), one call computes the code \<open>(levelB << 1) | levelA\<close>,
  stores the table entry \<open>next\<close> of row \<open>state & 0xF\<close> and column \<open>code\<close> as the new
  state, and reports the direction read from \<open>next & 0x30\<close>: \<open>0x10\<close> gives -1,
  \<open>0x20\<close> gives +1 and \<open>0x00\<close> gives 0, and these are the only three values the
  flags take. Nothing but the state and the reported direction changes; the pin
  numbers stay as they were.
\<close>

theorem C1_encoderDirection_lookup:
  assumes "unat (state e AND 0xf) < 7"
  shows "\<exists>next.
    encoderCode levelA levelB = push_bit 1 (of_bool levelB) OR of_bool levelA \<and>
    table_at (unat (state e AND 0xf)) (unat (encoderCode levelA levelB)) = Some next \<and>
    (next AND 0x30 = 0x10 \<or> next AND 0x30 = 0x20 \<or> next AND 0x30 = 0x00) \<and>
    encoderDirection e levelA levelB =
      Some (e\<lparr>state := next,
              direction := (if next AND 0x30 = 0x10 then - 1
                            else if next AND 0x30 = 0x20 then 1 else 0)\<rparr>)"
proof -
  let ?next = "encoderStateTable ! unat (state e AND 0xf) ! unat (encoderCode levelA levelB)"
  have c: "unat (encoderCode levelA levelB) < 4" by (rule encoderCode_less)
  have code: "encoderCode levelA levelB = push_bit 1 (of_bool levelB) OR of_bool levelA"
    by (cases levelA; cases levelB; simp add: encoderCode_def digitalRead_def)
  have tbl: "table_at (unat (state e AND 0xf)) (unat (encoderCode levelA levelB)) = Some ?next"
    using assms c by (rule table_at_Some)
  have flags: "?next AND 0x30 = 0x10 \<or> ?next AND 0x30 = 0x20 \<or> ?next AND 0x30 = 0x00"
    using table_entry_flags [OF assms c] by auto
  have "encoderDirection e levelA levelB =
      Some (e\<lparr>state := ?next,
              direction := (if ?next AND 0x30 = 0x10 then - 1
                            else if ?next AND 0x30 = 0x20 then 1 else 0)\<rparr>)"
    using flags by (auto simp: encoderDirection_row [OF assms] Let_def)
  with code tbl flags show ?thesis by blast
qed

theorem C1_encoderDirection_lookup_witness:
  "unat (state \<lparr>gpioA = 23, gpioB = 24, state = 0x15, direction = 0\<rparr> AND 0xf) < 7 \<and>
   encoderCode True True = 3 \<and>
   table_at 5 3 = Some 0x20 \<and>
   encoderDirection \<lparr>gpioA = 23, gpioB = 24, state = 0x15, direction = 0\<rparr> True True =
     Some \<lparr>gpioA = 23, gpioB = 24, state = 0x20, direction = 1\<rparr>"
  using C1_encoderDirection_lookup [of "\<lparr>gpioA = 23, gpioB = 24, state = 0x15, direction = 0\<rparr>" True True]
  by (auto simp: table_at_def encoderStateTable_def)

lemma unat_encoderCode_simps:
  "unat (encoderCode False False) = 0" "unat (encoderCode True False) = 1"
  "unat (encoderCode False True) = 2" "unat (encoderCode True True) = 3"
  by (simp_all add: unat_encoderCode)

lemmas run_simps =
  encoderInit_def encoder_zero_def encoderDirection_row encoderStateTable_def
  unat_encoderCode_simps

text \<open>
  C2 (as amended). The table is the literal one. The samples with codes 1, 3, 2, 0,
  fed to the decoder from the start state, store the states 2, 0, 4, 6 and report no
  direction on any of the four calls: code 3 in row 2 leads back to row 0, not to
  row 3. The entry \<^verbatim>\<open>0x10\<close> of row 1, column 3 is reached by the codes 1, 0, 2, 3,
  which store the states 2, 3, 1, \<^verbatim>\<open>0x10\<close> and report 0, 0, 0 and then -1.
\<close>

theorem C2_code_sequences:
  "encoderStateTable =
     [[0, 2, 4, 0], [3, 0, 1, 0x10], [3, 2, 0, 0], [3, 2, 1, 0],
      [6, 0, 4, 0], [6, 5, 0, 0x20], [6, 5, 4, 0]] \<and>
   map (case_prod encoderCode) [(True, False), (True, True), (False, True), (False, False)]
     = [1, 3, 2, 0] \<and>
   (\<exists>es. encoderRun (encoderInit gA gB encoder_zero)
            [(True, False), (True, True), (False, True), (False, False)] = Some es \<and>
         map state es = [2, 0, 4, 6] \<and> map direction es = [0, 0, 0, 0]) \<and>
   map (case_prod encoderCode) [(True, False), (False, False), (False, True), (True, True)]
     = [1, 0, 2, 3] \<and>
   (\<exists>es. encoderRun (encoderInit gA gB encoder_zero)
            [(True, False), (False, False), (False, True), (True, True)] = Some es \<and>
         map state es = [2, 3, 1, 0x10] \<and> map direction es = [0, 0, 0, - 1])"
proof -
  have codes: "map (case_prod encoderCode) [(True, False), (True, True), (False, True), (False, False)]
      = [1, 3, 2, 0]"
    "map (case_prod encoderCode) [(True, False), (False, False), (False, True), (True, True)]
      = [1, 0, 2, 3]"
    by (simp_all add: encoderCode_def digitalRead_def)
  have run1: "\<exists>es. encoderRun (encoderInit gA gB encoder_zero)
            [(True, False), (True, True), (False, True), (False, False)] = Some es \<and>
         map state es = [2, 0, 4, 6] \<and> map direction es = [0, 0, 0, 0]"
    by (simp add: run_simps)
  have run2: "\<exists>es. encoderRun (encoderInit gA gB encoder_zero)
            [(True, False), (False, False), (False, True), (True, True)] = Some es \<and>
         map state es = [2, 3, 1, 0x10] \<and> map direction es = [0, 0, 0, - 1]"
    by (simp add: run_simps)
  show ?thesis
    using codes run1 run2 by (simp only: encoderStateTable_def simp_thms)
qed

theorem C2_states_2300_counterexample:
  "map (case_prod encoderCode) [(True, False), (True, True), (False, True), (False, False)]
     = [1, 3, 2, 0] \<and>
   map_option (map state)
     (encoderRun (encoderInit 23 24 encoder_zero)
        [(True, False), (True, True), (False, True), (False, False)]) \<noteq> Some [2, 3, 0, 0] \<and>
   map_option (map direction)
     (encoderRun (encoderInit 23 24 encoder_zero)
        [(True, False), (True, True), (False, True), (False, False)]) \<noteq> Some [0, 0, 0, - 1]"
  by (simp add: run_simps encoderCode_def digitalRead_def)

section \<open>Runs\<close>

lemma encoderRun_append:
  "encoderRun e (ps @ qs) =
     (case encoderRun e ps of
        None \<Rightarrow> None
      | Some es \<Rightarrow>
          (case encoderRun (last (e # es)) qs of
             None \<Rightarrow> None
           | Some fs \<Rightarrow> Some (es @ fs)))"
proof (induction ps arbitrary: e)
  case Nil
  show ?case by (simp split: option.splits)
next
  case (Cons p ps)
  obtain a b where p: "p = (a, b)" by (cases p)
  show ?case
    by (auto simp: p Cons.IH split: option.splits)
qed

lemma encoderRun_total:
  "unat (state e AND 0xf) < 7 \<Longrightarrow>
     \<exists>es. encoderRun e ps = Some es \<and> length es = length ps \<and>
          unat (state (last (e # es)) AND 0xf) < 7"
proof (induction ps arbitrary: e)
  case Nil
  then show ?case by simp
next
  case (Cons p ps)
  obtain a b where p: "p = (a, b)" by (cases p)
  from encoderDirection_row [OF Cons.prems, of a b]
  obtain e' where e': "encoderDirection e a b = Some e'" by blast
  from Cons.IH [OF encoderDirection_next_row [OF e']]
  obtain es where "encoderRun e' ps = Some es" "length es = length ps"
    "unat (state (last (e' # es)) AND 0xf) < 7" by blast
  then show ?case by (simp add: p e')
qed

lemma reachable_row: "reachable e \<Longrightarrow> unat (state e AND 0xf) < 7"
proof (induction rule: reachable.induct)
  case (init gA gB)
  show ?case by (simp add: encoderInit_def encoder_zero_def)
next
  case (step e a b e')
  from step.hyps(2) show ?case by (rule encoderDirection_next_row)
qed

lemma reachable_run:
  "reachable e \<Longrightarrow> encoderRun e ps = Some es \<Longrightarrow> reachable (last (e # es))"
proof (induction ps arbitrary: e es)
  case Nil
  then show ?case by simp
next
  case (Cons p ps)
  obtain a b where p: "p = (a, b)" by (cases p)
  from Cons.prems(2) obtain e' es' where
    e': "encoderDirection e a b = Some e'" and es': "encoderRun e' ps = Some es'"
    and es: "es = e' # es'"
    by (auto simp: p split: option.splits)
  have "reachable e'" using Cons.prems(1) e' by (rule reachable.step)
  from Cons.IH [OF this es'] show ?case by (simp add: es)
qed

subsection \<open>Detents\<close>

lemma detent_fwd_first:
  "state e AND 0xf = 0 \<Longrightarrow>
     encoderRun e detent_fwd =
       Some [e\<lparr>state := 4, direction := 0\<rparr>, e\<lparr>state := 0, direction := 0\<rparr>,
             e\<lparr>state := 2, direction := 0\<rparr>, e\<lparr>state := 3, direction := 0\<rparr>]"
  by (simp add: detent_fwd_def run_simps)

lemma detent_fwd_next:
  "state e = 3 \<Longrightarrow>
     encoderRun e detent_fwd =
       Some [e\<lparr>state := 1, direction := 0\<rparr>, e\<lparr>state := 0x10, direction := - 1\<rparr>,
             e\<lparr>state := 2, direction := 0\<rparr>, e\<lparr>state := 3, direction := 0\<rparr>]"
  by (simp add: detent_fwd_def run_simps)

lemma detent_bwd_first:
  "state e AND 0xf = 0 \<Longrightarrow>
     encoderRun e detent_bwd =
       Some [e\<lparr>state := 2, direction := 0\<rparr>, e\<lparr>state := 0, direction := 0\<rparr>,
             e\<lparr>state := 4, direction := 0\<rparr>, e\<lparr>state := 6, direction := 0\<rparr>]"
  by (simp add: detent_bwd_def run_simps)

lemma detent_bwd_next:
  "state e = 6 \<Longrightarrow>
     encoderRun e detent_bwd =
       Some [e\<lparr>state := 5, direction := 0\<rparr>, e\<lparr>state := 0x20, direction := 1\<rparr>,
             e\<lparr>state := 4, direction := 0\<rparr>, e\<lparr>state := 6, direction := 0\<rparr>]"
  by (simp add: detent_bwd_def run_simps)

lemma detents_fwd_later:
  "state e = 3 \<Longrightarrow>
     \<exists>es. encoderRun e (concat (replicate n detent_fwd)) = Some es \<and>
          map direction es = concat (replicate n [0, - 1, 0, 0]) \<and>
          state (last (e # es)) = 3"
proof (induction n arbitrary: e)
  case 0
  then show ?case by simp
next
  case (Suc n)
  let ?e' = "e\<lparr>state := 3, direction := 0\<rparr>"
  have "state ?e' = 3" by simp
  from Suc.IH [OF this] obtain es where
    es: "encoderRun ?e' (concat (replicate n detent_fwd)) = Some es"
      "map direction es = concat (replicate n [0, - 1, 0, 0])"
      "state (last (?e' # es)) = 3" by blast
  show ?case
    using es by (simp add: encoderRun_append detent_fwd_next [OF Suc.prems])
qed

lemma detents_bwd_later:
  "state e = 6 \<Longrightarrow>
     \<exists>es. encoderRun e (concat (replicate n detent_bwd)) = Some es \<and>
          map direction es = concat (replicate n [0, 1, 0, 0]) \<and>
          state (last (e # es)) = 6"
proof (induction n arbitrary: e)
  case 0
  then show ?case by simp
next
  case (Suc n)
  let ?e' = "e\<lparr>state := 6, direction := 0\<rparr>"
  have "state ?e' = 6" by simp
  from Suc.IH [OF this] obtain es where
    es: "encoderRun ?e' (concat (replicate n detent_bwd)) = Some es"
      "map direction es = concat (replicate n [0, 1, 0, 0])"
      "state (last (?e' # es)) = 6" by blast
  show ?case
    using es by (simp add: encoderRun_append detent_bwd_next [OF Suc.prems])
qed

text \<open>
  The directions of \<open>Suc n\<close> detents of the cycle 00, 01, 11, 10, 00 from the start
  state: nothing in the first detent, then -1 at phase 11 of every later one. The
  cycle run the other way reports +1 in the same places.
\<close>

lemma detents_fwd_directions:
  "\<exists>es. encoderRun (encoderInit gA gB encoder_zero) (concat (replicate (Suc n) detent_fwd)) = Some es \<and>
        map direction es = [0, 0, 0, 0] @ concat (replicate n [0, - 1, 0, 0])"
proof -
  let ?e = "encoderInit gA gB encoder_zero"
  have z: "state ?e AND 0xf = 0" by (simp add: encoderInit_def encoder_zero_def)
  have "state (?e\<lparr>state := 3, direction := 0\<rparr>) = 3" by simp
  from detents_fwd_later [OF this, of n] obtain es where
    "encoderRun (?e\<lparr>state := 3, direction := 0\<rparr>) (concat (replicate n detent_fwd)) = Some es"
    "map direction es = concat (replicate n [0, - 1, 0, 0])" by blast
  then show ?thesis
    by (simp add: encoderRun_append detent_fwd_first [OF z])
qed

lemma detents_bwd_directions:
  "\<exists>es. encoderRun (encoderInit gA gB encoder_zero) (concat (replicate (Suc n) detent_bwd)) = Some es \<and>
        map direction es = [0, 0, 0, 0] @ concat (replicate n [0, 1, 0, 0])"
proof -
  let ?e = "encoderInit gA gB encoder_zero"
  have z: "state ?e AND 0xf = 0" by (simp add: encoderInit_def encoder_zero_def)
  have "state (?e\<lparr>state := 6, direction := 0\<rparr>) = 6" by simp
  from detents_bwd_later [OF this, of n] obtain es where
    "encoderRun (?e\<lparr>state := 6, direction := 0\<rparr>) (concat (replicate n detent_bwd)) = Some es"
    "map direction es = concat (replicate n [0, 1, 0, 0])" by blast
  then show ?thesis
    by (simp add: encoderRun_append detent_bwd_first [OF z])
qed

text \<open>
  The detent of the table's own resting phase 11: from a state with low nibble 0
  every detent reports exactly one direction, on its last call.
\<close>

lemma detent_rest_cw_run:
  "state e AND 0xf = 0 \<Longrightarrow>
     encoderRun e detent_rest_cw =
       Some [e\<lparr>state := 2, direction := 0\<rparr>, e\<lparr>state := 3, direction := 0\<rparr>,
             e\<lparr>state := 1, direction := 0\<rparr>, e\<lparr>state := 0x10, direction := - 1\<rparr>]"
  by (simp add: detent_rest_cw_def run_simps)

lemma detent_rest_acw_run:
  "state e AND 0xf = 0 \<Longrightarrow>
     encoderRun e detent_rest_acw =
       Some [e\<lparr>state := 4, direction := 0\<rparr>, e\<lparr>state := 6, direction := 0\<rparr>,
             e\<lparr>state := 5, direction := 0\<rparr>, e\<lparr>state := 0x20, direction := 1\<rparr>]"
  by (simp add: detent_rest_acw_def run_simps)

lemma detents_rest_cw_directions:
  "state e AND 0xf = 0 \<Longrightarrow>
     \<exists>es. encoderRun e (concat (replicate n detent_rest_cw)) = Some es \<and>
          map direction es = concat (replicate n [0, 0, 0, - 1])"
proof (induction n arbitrary: e)
  case 0
  then show ?case by simp
next
  case (Suc n)
  let ?e' = "e\<lparr>state := 0x10, direction := - 1\<rparr>"
  have "state ?e' AND 0xf = 0" by simp
  from Suc.IH [OF this] obtain es where
    "encoderRun ?e' (concat (replicate n detent_rest_cw)) = Some es"
    "map direction es = concat (replicate n [0, 0, 0, - 1])" by blast
  then show ?case
    by (simp add: encoderRun_append detent_rest_cw_run [OF Suc.prems])
qed

lemma detents_rest_acw_directions:
  "state e AND 0xf = 0 \<Longrightarrow>
     \<exists>es. encoderRun e (concat (replicate n detent_rest_acw)) = Some es \<and>
          map direction es = concat (replicate n [0, 0, 0, 1])"
proof (induction n arbitrary: e)
  case 0
  then show ?case by simp
next
  case (Suc n)
  let ?e' = "e\<lparr>state := 0x20, direction := 1\<rparr>"
  have "state ?e' AND 0xf = 0" by simp
  from Suc.IH [OF this] obtain es where
    "encoderRun ?e' (concat (replicate n detent_rest_acw)) = Some es"
    "map direction es = concat (replicate n [0, 0, 0, 1])" by blast
  then show ?case
    by (simp add: encoderRun_append detent_rest_acw_run [OF Suc.prems])
qed

text \<open>
  C3 (as amended). Fed \<open>Suc n\<close> detents of the cycle 00, 01, 11, 10, 00 of \<open>(A, B)\<close>
  from the start state, one phase per call, the decoder reports nothing during the
  first detent and exactly one direction in each of the \<open>n\<close> later detents, on the
  call for phase 11; all of these have the same sign \<open>s\<close>. The cycle run the other
  way, 00, 10, 11, 01, 00, reports in the same places, with the opposite sign.
  (Which of the two signs \<open>s\<close> is, is the content of \<open>detents_fwd_directions\<close>.)
\<close>

theorem C3_detents_from_start:
  "\<exists>s es fs. (s = 1 \<or> s = - 1) \<and>
     encoderRun (encoderInit gA gB encoder_zero) (concat (replicate (Suc n) detent_fwd)) = Some es \<and>
     map direction es = [0, 0, 0, 0] @ concat (replicate n [0, s, 0, 0]) \<and>
     encoderRun (encoderInit gA gB encoder_zero) (concat (replicate (Suc n) detent_bwd)) = Some fs \<and>
     map direction fs = [0, 0, 0, 0] @ concat (replicate n [0, - s, 0, 0])"
proof -
  from detents_fwd_directions [of gA gB n] obtain es where
    es: "encoderRun (encoderInit gA gB encoder_zero) (concat (replicate (Suc n) detent_fwd)) = Some es"
      "map direction es = [0, 0, 0, 0] @ concat (replicate n [0, - 1, 0, 0])" by blast
  from detents_bwd_directions [of gA gB n] obtain fs where
    fs: "encoderRun (encoderInit gA gB encoder_zero) (concat (replicate (Suc n) detent_bwd)) = Some fs"
      "map direction fs = [0, 0, 0, 0] @ concat (replicate n [0, - (- 1), 0, 0])" by auto
  show ?thesis
    apply (rule exI [of _ "- 1"], rule exI [of _ es], rule exI [of _ fs])
    using es fs apply blast
    done
qed

theorem C3_one_positive_per_detent_counterexample:
  "map_option (map direction)
     (encoderRun (encoderInit 23 24 encoder_zero) detent_fwd) = Some [0, 0, 0, 0] \<and>
   map_option (map direction)
     (encoderRun (encoderInit 23 24 encoder_zero) (detent_fwd @ detent_fwd))
       = Some [0, 0, 0, 0, 0, - 1, 0, 0] \<and>
   map_option (map direction)
     (encoderRun (encoderInit 23 24 encoder_zero) detent_bwd) = Some [0, 0, 0, 0] \<and>
   map_option (map direction)
     (encoderRun (encoderInit 23 24 encoder_zero) (detent_bwd @ detent_bwd))
       = Some [0, 0, 0, 0, 0, 1, 0, 0]"
  by (simp add: detent_fwd_def detent_bwd_def run_simps)

section \<open>Properties of every call\<close>

lemma word_row_cases:
  "unat (w :: uchar) < 7 \<Longrightarrow> w = 0 \<or> w = 1 \<or> w = 2 \<or> w = 3 \<or> w = 4 \<or> w = 5 \<or> w = 6"
  by (drule row_cases) (auto simp: word_unat_eq_iff)

lemma encoderDirection_state:
  assumes "encoderDirection e a b = Some e'"
  shows "state e' = encoderStateTable ! unat (state e AND 0xf) ! unat (encoderCode a b)"
    and "direction e' =
      (let dir = state e' AND 0x30 in if dir \<noteq> 0 then (if dir = 0x10 then - 1 else 1) else 0)"
  using encoderDirection_row [OF encoderDirection_Some_row [OF assms], of a b] assms
  by (auto simp: Let_def)

lemma event_row:
  assumes "encoderDirection e a b = Some e'" and "direction e' \<noteq> 0"
  shows "state e' AND 0xf = 0"
    and "state e AND 0xf = 1 \<or> state e AND 0xf = 5"
    and "encoderCode a b = 3"
proof -
  have r: "unat (state e AND 0xf) < 7" using assms(1) by (rule encoderDirection_Some_row)
  have c: "unat (encoderCode a b) < 4" by (rule encoderCode_less)
  have st: "state e' = encoderStateTable ! unat (state e AND 0xf) ! unat (encoderCode a b)"
    using assms(1) by (rule encoderDirection_state(1))
  have "state e' AND 0x30 \<noteq> 0"
    using encoderDirection_state(2) [OF assms(1)] assms(2) by (auto simp: Let_def split: if_splits)
  then have "encoderStateTable ! unat (state e AND 0xf) ! unat (encoderCode a b) AND 0x30 \<noteq> 0"
    by (simp add: st)
  from table_entry_dir [OF r c this]
  have t1: "encoderStateTable ! unat (state e AND 0xf) ! unat (encoderCode a b) AND 0xf = 0"
    and t2: "unat (state e AND 0xf) = 1 \<or> unat (state e AND 0xf) = 5"
    and t3: "unat (encoderCode a b) = 3"
    by blast+
  show "state e' AND 0xf = 0" unfolding st by (rule t1)
  show "state e AND 0xf = 1 \<or> state e AND 0xf = 5"
    using t2 by (auto simp: word_unat_eq_iff)
  show "encoderCode a b = 3"
    using t3 by (simp add: word_unat_eq_iff)
qed

lemma row0_no_event:
  assumes "state e AND 0xf = 0"
  shows "\<exists>e'. encoderDirection e a b = Some e' \<and> direction e' = 0"
proof -
  have r: "unat (state e AND 0xf) < 7" by (simp add: assms)
  from encoderDirection_row [OF r, of a b]
  obtain e' where e': "encoderDirection e a b = Some e'" by blast
  have "direction e' = 0"
  proof (rule ccontr)
    assume "direction e' \<noteq> 0"
    from event_row(2) [OF e' this] show False by (simp add: assms)
  qed
  with e' show ?thesis by blast
qed

text \<open>
  C9. Whenever a call reports a direction other than 0, the state it stores has low
  nibble 0 (row 0 of the table), and therefore the next call reports 0, whatever the
  two levels it samples: no two calls in a row both report a direction.
\<close>

theorem C9_event_then_none:
  assumes "encoderDirection e a b = Some e1" and "direction e1 \<noteq> 0"
  shows "state e1 AND 0xf = 0 \<and>
         (\<exists>e2. encoderDirection e1 a' b' = Some e2 \<and> direction e2 = 0)"
proof -
  have z: "state e1 AND 0xf = 0" using assms by (rule event_row(1))
  from row0_no_event [OF z, of a' b'] z show ?thesis by blast
qed

theorem C9_event_then_none_witness:
  "encoderDirection \<lparr>gpioA = 23, gpioB = 24, state = 1, direction = 0\<rparr> True True
     = Some \<lparr>gpioA = 23, gpioB = 24, state = 0x10, direction = - 1\<rparr> \<and>
   direction \<lparr>gpioA = 23, gpioB = 24, state = 0x10, direction = - 1\<rparr> \<noteq> 0 \<and>
   state \<lparr>gpioA = 23, gpioB = 24, state = 0x10, direction = - 1\<rparr> AND 0xf = 0 \<and>
   (\<exists>e2. encoderDirection \<lparr>gpioA = 23, gpioB = 24, state = 0x10, direction = - 1\<rparr> True False
           = Some e2 \<and> direction e2 = 0)"
proof -
  have h: "encoderDirection \<lparr>gpioA = 23, gpioB = 24, state = 1, direction = 0\<rparr> True True
     = Some \<lparr>gpioA = 23, gpioB = 24, state = 0x10, direction = - 1\<rparr>"
    by (simp add: run_simps)
  have d: "direction \<lparr>gpioA = 23, gpioB = 24, state = 0x10, direction = - 1\<rparr> \<noteq> 0" by simp
  from C9_event_then_none [OF h d, of True False] h d show ?thesis by blast
qed

text \<open>
  C5. In every global the program can be in, and for every pair of levels, two calls
  in a row that sample the same levels both succeed, and the second reports 0.
\<close>

theorem C5_repeated_levels_none:
  assumes "reachable e"
  shows "\<exists>e1 e2. encoderDirection e a b = Some e1 \<and> encoderDirection e1 a b = Some e2 \<and>
                 direction e2 = 0"
proof -
  from encoderDirection_row [OF reachable_row [OF assms], of a b]
  obtain e1 where e1: "encoderDirection e a b = Some e1" by blast
  from encoderDirection_row [OF encoderDirection_next_row [OF e1], of a b]
  obtain e2 where e2: "encoderDirection e1 a b = Some e2" by blast
  have "direction e2 = 0"
  proof (rule ccontr)
    assume ev: "direction e2 \<noteq> 0"
    have c: "unat (encoderCode a b) = 3" using event_row(3) [OF e2 ev] by simp
    have r: "unat (state e AND 0xf) < 7" using assms by (rule reachable_row)
    have "state e1 AND 0xf = 0"
      using row_cases [OF r]
      by (auto simp: encoderDirection_state(1) [OF e1] c encoderStateTable_def)
    with event_row(2) [OF e2 ev] show False by simp
  qed
  with e1 e2 show ?thesis by blast
qed

theorem C5_repeated_levels_none_witness:
  "reachable (encoderInit 23 24 encoder_zero) \<and>
   (\<exists>e1 e2. encoderDirection (encoderInit 23 24 encoder_zero) True False = Some e1 \<and>
             encoderDirection e1 True False = Some e2 \<and> direction e2 = 0)"
  using C5_repeated_levels_none [OF reachable.init, of 23 24 True False] reachable.init [of 23 24]
  by blast

text \<open>
  C6. The routine never reads outside the table: in every global the program can be
  in, the masked state is one of the rows 0 to 6 and the code one of the columns 0
  to 3, the table read succeeds, the call returns a global the program can be in
  again, and so does every further sequence of calls.
\<close>

theorem C6_never_out_of_bounds:
  assumes "reachable e"
  shows "unat (state e AND 0xf) \<le> 6 \<and> unat (encoderCode levelA levelB) \<le> 3 \<and>
         table_at (unat (state e AND 0xf)) (unat (encoderCode levelA levelB)) \<noteq> None \<and>
         (\<exists>e'. encoderDirection e levelA levelB = Some e' \<and> reachable e') \<and>
         (\<exists>es. encoderRun e ps = Some es \<and> length es = length ps)"
proof -
  have r: "unat (state e AND 0xf) < 7" using assms by (rule reachable_row)
  have c: "unat (encoderCode levelA levelB) < 4" by (rule encoderCode_less)
  have t: "table_at (unat (state e AND 0xf)) (unat (encoderCode levelA levelB)) \<noteq> None"
    using table_at_Some [OF r c] by simp
  from encoderDirection_row [OF r, of levelA levelB]
  obtain e' where e': "encoderDirection e levelA levelB = Some e'" by blast
  have "reachable e'" using assms e' by (rule reachable.step)
  with e' have s: "\<exists>e'. encoderDirection e levelA levelB = Some e' \<and> reachable e'" by blast
  from encoderRun_total [OF r, of ps]
  have "\<exists>es. encoderRun e ps = Some es \<and> length es = length ps" by blast
  with r c t s show ?thesis by simp
qed

theorem C6_never_out_of_bounds_witness:
  "reachable (encoderInit 23 24 encoder_zero) \<and>
   unat (state (encoderInit 23 24 encoder_zero) AND 0xf) \<le> 6 \<and>
   unat (encoderCode True True) \<le> 3 \<and>
   table_at (unat (state (encoderInit 23 24 encoder_zero) AND 0xf)) (unat (encoderCode True True))
     \<noteq> None \<and>
   (\<exists>e'. encoderDirection (encoderInit 23 24 encoder_zero) True True = Some e' \<and> reachable e') \<and>
   (\<exists>es. encoderRun (encoderInit 23 24 encoder_zero) [(True, False), (False, False)] = Some es \<and>
         length es = length [(True, False), (False, False)])"
  using C6_never_out_of_bounds [OF reachable.init, of 23 24 True True "[(True, False), (False, False)]"]
    reachable.init [of 23 24]
  by blast

section \<open>Hysteresis\<close>

lemma calls_to_event_step:
  assumes "encoderDirection e a b = Some e'"
  shows "calls_to_event (state e) \<le> Suc (calls_to_event (state e'))"
proof -
  have r: "unat (state e AND 0xf) < 7" using assms by (rule encoderDirection_Some_row)
  have c: "unat (encoderCode a b) < 4" by (rule encoderCode_less)
  have st: "state e' = encoderStateTable ! unat (state e AND 0xf) ! unat (encoderCode a b)"
    using assms by (rule encoderDirection_state(1))
  show ?thesis
    using word_row_cases [OF r] col_cases [OF c]
    by (auto simp: st calls_to_event_def encoderStateTable_def)
qed

lemma calls_to_event_one:
  assumes "encoderDirection e a b = Some e'" and "direction e' \<noteq> 0"
  shows "calls_to_event (state e) = 1"
  using event_row(2) [OF assms] by (auto simp: calls_to_event_def)

lemma no_event_before:
  "encoderRun e ps = Some es \<Longrightarrow> length ps < calls_to_event (state e) \<Longrightarrow>
     map direction es = replicate (length ps) 0"
proof (induction ps arbitrary: e es)
  case Nil
  then show ?case by simp
next
  case (Cons p ps)
  obtain a b where p: "p = (a, b)" by (cases p)
  from Cons.prems(1) obtain e' es' where
    e': "encoderDirection e a b = Some e'" and es': "encoderRun e' ps = Some es'"
    and es: "es = e' # es'"
    by (auto simp: p split: option.splits)
  have far: "1 < calls_to_event (state e)" using Cons.prems(2) by simp
  have d: "direction e' = 0"
  proof (rule ccontr)
    assume "direction e' \<noteq> 0"
    from calls_to_event_one [OF e' this] far show False by simp
  qed
  have "length ps < calls_to_event (state e')"
    using calls_to_event_step [OF e'] Cons.prems(2) by simp
  from Cons.IH [OF es' this] d show ?case by (simp add: es)
qed

text \<open>
  C7. From a state with low nibble 0, the start state among them, fewer than four
  calls never report a direction: every such sequence of calls succeeds and reports
  0 each time. In particular a single call from there reports 0.
\<close>

theorem C7_hysteresis:
  assumes "state e AND 0xf = 0"
  shows "(length ps < 4 \<longrightarrow>
            (\<exists>es. encoderRun e ps = Some es \<and> map direction es = replicate (length ps) 0)) \<and>
         (\<exists>e'. encoderDirection e levelA levelB = Some e' \<and> direction e' = 0)"
proof -
  have r: "unat (state e AND 0xf) < 7" by (simp add: assms)
  have four: "calls_to_event (state e) = 4" by (simp add: calls_to_event_def assms)
  from encoderRun_total [OF r, of ps] obtain es where es: "encoderRun e ps = Some es" by blast
  have "length ps < 4 \<longrightarrow> map direction es = replicate (length ps) 0"
    using no_event_before [OF es] four by simp
  with es row0_no_event [OF assms, of levelA levelB] show ?thesis by simp
qed

theorem C7_hysteresis_witness:
  "state (encoderInit 23 24 encoder_zero) AND 0xf = 0 \<and>
   length [(True, False), (False, False), (False, True)] < 4 \<and>
   encoderRun (encoderInit 23 24 encoder_zero) [(True, False), (False, False), (False, True)]
     = Some [\<lparr>gpioA = 23, gpioB = 24, state = 2, direction = 0\<rparr>,
             \<lparr>gpioA = 23, gpioB = 24, state = 3, direction = 0\<rparr>,
             \<lparr>gpioA = 23, gpioB = 24, state = 1, direction = 0\<rparr>] \<and>
   (\<exists>e'. encoderDirection (encoderInit 23 24 encoder_zero) True True = Some e' \<and> direction e' = 0)"
proof -
  have z: "state (encoderInit 23 24 encoder_zero) AND 0xf = 0"
    by (simp add: encoderInit_def encoder_zero_def)
  have run: "encoderRun (encoderInit 23 24 encoder_zero) [(True, False), (False, False), (False, True)]
     = Some [\<lparr>gpioA = 23, gpioB = 24, state = 2, direction = 0\<rparr>,
             \<lparr>gpioA = 23, gpioB = 24, state = 3, direction = 0\<rparr>,
             \<lparr>gpioA = 23, gpioB = 24, state = 1, direction = 0\<rparr>]"
    by (simp add: run_simps)
  from C7_hysteresis [OF z, of "[(True, False), (False, False), (False, True)]" True True] z run
  show ?thesis by simp
qed

text \<open>Four calls are enough to report a direction, so the bound of C7 is exact.\<close>

lemma event_on_fourth_call:
  "map_option (map direction) (encoderRun (encoderInit gA gB encoder_zero) detent_rest_cw)
     = Some [0, 0, 0, - 1]"
  by (simp add: detent_rest_cw_def run_simps)

section \<open>Illegal codes\<close>

text \<open>
  After any call, a row other than row 0 tells which sample it was entered on.
\<close>

lemma entered_on_step:
  assumes "encoderDirection e a b = Some e'"
  shows "entered_on (state e') (a, b)"
proof -
  have r: "unat (state e AND 0xf) < 7" using assms by (rule encoderDirection_Some_row)
  have st: "state e' = encoderStateTable ! unat (state e AND 0xf) ! unat (encoderCode a b)"
    using assms by (rule encoderDirection_state(1))
  show ?thesis
    using row_cases [OF r]
    by (cases a; cases b)
       (auto simp: st entered_on_def encoderStateTable_def unat_encoderCode_simps
          encoderCode_def digitalRead_def)
qed

text \<open>
  A call whose sample differs from the sample of the call before in at most one
  line enters row 0 on 00 or 11 only, whatever happened earlier.
\<close>

lemma one_line_step_rest_on:
  assumes "encoderDirection e a' b' = Some e'"
    and "entered_on (state e) (a, b)" and "a = a' \<or> b = b'"
  shows "rest_on (state e') (a', b')"
proof -
  have r: "unat (state e AND 0xf) < 7" using assms(1) by (rule encoderDirection_Some_row)
  have st: "state e' = encoderStateTable ! unat (state e AND 0xf) ! unat (encoderCode a' b')"
    using assms(1) by (rule encoderDirection_state(1))
  show ?thesis
    using word_row_cases [OF r] assms(2,3)
    by (cases a; cases b; cases a'; cases b')
       (auto simp: st entered_on_def rest_on_def encoderStateTable_def unat_encoderCode_simps
          encoderCode_def digitalRead_def)
qed

text \<open>So does the first call after \<^verbatim>\<open>encoderInit\<close>.\<close>

lemma first_call_rest_on:
  assumes "state e = 0" and "encoderDirection e a b = Some e'"
  shows "rest_on (state e') (a, b)"
proof -
  have st: "state e' = encoderStateTable ! unat (state e AND 0xf) ! unat (encoderCode a b)"
    using assms(2) by (rule encoderDirection_state(1))
  show ?thesis
    by (cases a; cases b)
       (auto simp: st assms(1) rest_on_def encoderStateTable_def unat_encoderCode_simps
          encoderCode_def digitalRead_def)
qed

lemma run_snoc:
  assumes "encoderRun e (ps @ [(a, b)]) = Some es"
  shows "\<exists>es' e'. encoderRun e ps = Some es' \<and>
           encoderDirection (last (e # es')) a b = Some e' \<and> es = es' @ [e']"
proof -
  from assms have
    "(case encoderRun e ps of
        None \<Rightarrow> None
      | Some es' \<Rightarrow>
          (case encoderRun (last (e # es')) [(a, b)] of
             None \<Rightarrow> None
           | Some fs \<Rightarrow> Some (es' @ fs))) = Some es"
    by (simp only: encoderRun_append)
  then obtain es' fs where es': "encoderRun e ps = Some es'"
    and fs: "encoderRun (last (e # es')) [(a, b)] = Some fs" and es: "es = es' @ fs"
    by (cases "encoderRun e ps"; cases "encoderRun (last (e # the (encoderRun e ps))) [(a, b)]")
       (simp_all del: encoderRun.simps)
  from fs obtain e' where "encoderDirection (last (e # es')) a b = Some e'" "fs = [e']"
    by (cases "encoderDirection (last (e # es')) a b") auto
  with es' es show ?thesis by blast
qed

lemma run_last_entered:
  assumes "encoderRun e (ps @ [(a, b)]) = Some es"
  shows "es \<noteq> [] \<and> entered_on (state (last es)) (a, b)"
proof -
  from run_snoc [OF assms] obtain es' e' where
    "encoderDirection (last (e # es')) a b = Some e'" "es = es' @ [e']" by blast
  then show ?thesis using entered_on_step by simp
qed

lemma run_last_rest_on:
  assumes "state e = 0" and "encoderRun e (ps @ [(a, b)]) = Some es"
    and "ps = [] \<or> fst (last ps) = a \<or> snd (last ps) = b"
  shows "rest_on (state (last es)) (a, b)"
proof -
  from run_snoc [OF assms(2)] obtain es' e' where
    es': "encoderRun e ps = Some es'"
    and e': "encoderDirection (last (e # es')) a b = Some e'" and es: "es = es' @ [e']"
    by blast
  show ?thesis
  proof (cases "ps = []")
    case True
    with es' have "es' = []" by simp
    with e' have "encoderDirection e a b = Some e'" by simp
    from first_call_rest_on [OF assms(1) this] show ?thesis by (simp add: es)
  next
    case False
    then obtain qs q where ps: "ps = qs @ [q]" by (cases ps rule: rev_cases) auto
    obtain a0 b0 where q: "q = (a0, b0)" by (cases q)
    have step: "a0 = a \<or> b0 = b" using assms(3) False by (simp add: ps q)
    from es' have "encoderRun e (qs @ [(a0, b0)]) = Some es'" by (simp add: ps q)
    from run_last_entered [OF this]
    have ne: "es' \<noteq> []" and ent: "entered_on (state (last es')) (a0, b0)" by simp_all
    from e' ne have "encoderDirection (last es') a b = Some e'" by simp
    from one_line_step_rest_on [OF this ent step] show ?thesis by (simp add: es)
  qed
qed

text \<open>The illegal code in a row entered on \<open>(a, b)\<close> is the sample \<open>(\<not> a, \<not> b)\<close>.\<close>

lemma illegal_code_step:
  assumes "unat (state e AND 0xf) < 7" and "entered_on (state e) (a, b)"
  shows "\<exists>e'. encoderDirection e (\<not> a) (\<not> b) = Some e' \<and> direction e' = 0 \<and>
              (state e' = 0 \<longleftrightarrow> \<not> (state e AND 0xf = 0 \<and> a \<noteq> b)) \<and>
              (state e AND 0xf = 0 \<and> a \<noteq> b \<longrightarrow> state e' = (if a then 4 else 2))"
  using word_row_cases [OF assms(1)] assms(2)
  by (cases a; cases b)
     (auto simp: encoderDirection_row [OF assms(1)] entered_on_def encoderStateTable_def
        unat_encoderCode_simps encoderCode_def digitalRead_def)

lemma rest_on_not_row0_half:
  "rest_on s (a, b) \<Longrightarrow> \<not> (s AND 0xf = 0 \<and> a \<noteq> b)"
  by (cases a; cases b) (auto simp: rest_on_def encoderCode_def digitalRead_def)

text \<open>
  C4 (as amended). After any non-empty sequence of calls from the start state, let
  \<open>(a, b)\<close> be the levels of the last call and \<open>ps\<close> the samples of the calls before
  it. A call that samples the illegal code \<open>(\<not> a, \<not> b)\<close>, in which both lines have
  changed, succeeds and reports 0. It stores the start state 0 whenever the last
  call was the first one or its sample differed from the sample before it in at most
  one line, that is, unless the last call was itself an illegal code. It fails to
  store 0 exactly when the decoder is in row 0 with last sample 01 or 10; that
  happens only right after another illegal code, and the state stored is then row 4
  (last sample \<open>A = 1, B = 0\<close>) or row 2 (last sample \<open>A = 0, B = 1\<close>).
\<close>

theorem C4_illegal_code:
  "\<exists>es e'. encoderRun (encoderInit gA gB encoder_zero) (ps @ [(a, b)]) = Some es \<and>
      encoderDirection (last es) (\<not> a) (\<not> b) = Some e' \<and> direction e' = 0 \<and>
      (ps = [] \<or> fst (last ps) = a \<or> snd (last ps) = b \<longrightarrow> state e' = 0) \<and>
      (state e' = 0 \<longleftrightarrow> \<not> (state (last es) AND 0xf = 0 \<and> a \<noteq> b)) \<and>
      (state (last es) AND 0xf = 0 \<and> a \<noteq> b \<longrightarrow>
         ps \<noteq> [] \<and> fst (last ps) = (\<not> a) \<and> snd (last ps) = (\<not> b) \<and>
         state e' = (if a then 4 else 2))"
proof -
  let ?e = "encoderInit gA gB encoder_zero"
  have s0: "state ?e = 0" by (simp add: encoderInit_def encoder_zero_def)
  have r0: "unat (state ?e AND 0xf) < 7" by (simp add: s0)
  from encoderRun_total [OF r0, of "ps @ [(a, b)]"] obtain es where
    es: "encoderRun ?e (ps @ [(a, b)]) = Some es"
    and row: "unat (state (last (?e # es)) AND 0xf) < 7" by blast
  from run_last_entered [OF es] have ne: "es \<noteq> []"
    and ent: "entered_on (state (last es)) (a, b)" by simp_all
  have row': "unat (state (last es) AND 0xf) < 7" using row ne by simp
  from illegal_code_step [OF row' ent] obtain e' where
    e': "encoderDirection (last es) (\<not> a) (\<not> b) = Some e'" "direction e' = 0"
    and iff: "state e' = 0 \<longleftrightarrow> \<not> (state (last es) AND 0xf = 0 \<and> a \<noteq> b)"
    and other: "state (last es) AND 0xf = 0 \<and> a \<noteq> b \<longrightarrow> state e' = (if a then 4 else 2)"
    by blast
  have rest: "ps = [] \<or> fst (last ps) = a \<or> snd (last ps) = b \<Longrightarrow>
      \<not> (state (last es) AND 0xf = 0 \<and> a \<noteq> b)"
    using run_last_rest_on [OF s0 es] rest_on_not_row0_half by blast
  have one: "ps = [] \<or> fst (last ps) = a \<or> snd (last ps) = b \<longrightarrow> state e' = 0"
    using rest iff by blast
  have two: "state (last es) AND 0xf = 0 \<and> a \<noteq> b \<longrightarrow>
         ps \<noteq> [] \<and> fst (last ps) = (\<not> a) \<and> snd (last ps) = (\<not> b) \<and>
         state e' = (if a then 4 else 2)"
    using rest other by blast
  from es e' one iff two show ?thesis by blast
qed

theorem C4_illegal_code_witness:
  "([(False, True), (True, False), (False, False)] = [] \<or>
      fst (last [(False, True), (True, False), (False, False)]) = False \<or>
      snd (last [(False, True), (True, False), (False, False)]) = True) \<and>
   (\<exists>es e'. encoderRun (encoderInit 23 24 encoder_zero)
               ([(False, True), (True, False), (False, False)] @ [(False, True)]) = Some es \<and>
      state (last es) = 4 \<and>
      encoderDirection (last es) True False = Some e' \<and> direction e' = 0 \<and> state e' = 0) \<and>
   (\<exists>es e'. encoderRun (encoderInit 23 24 encoder_zero) ([(False, True)] @ [(True, False)]) = Some es \<and>
      state (last es) AND 0xf = 0 \<and> True \<noteq> False \<and>
      fst (last [(False, True)]) = (\<not> True) \<and> snd (last [(False, True)]) = (\<not> False) \<and>
      encoderDirection (last es) False True = Some e' \<and> direction e' = 0 \<and> state e' = 4)"
proof -
  have run1: "encoderRun (encoderInit 23 24 encoder_zero)
      ([(False, True), (True, False), (False, False)] @ [(False, True)])
     = Some [\<lparr>gpioA = 23, gpioB = 24, state = 4, direction = 0\<rparr>,
             \<lparr>gpioA = 23, gpioB = 24, state = 0, direction = 0\<rparr>,
             \<lparr>gpioA = 23, gpioB = 24, state = 0, direction = 0\<rparr>,
             \<lparr>gpioA = 23, gpioB = 24, state = 4, direction = 0\<rparr>]"
    by (simp add: run_simps)
  have run2: "encoderRun (encoderInit 23 24 encoder_zero) ([(False, True)] @ [(True, False)])
     = Some [\<lparr>gpioA = 23, gpioB = 24, state = 4, direction = 0\<rparr>,
             \<lparr>gpioA = 23, gpioB = 24, state = 0, direction = 0\<rparr>]"
    by (simp add: run_simps)
  from C4_illegal_code [of 23 24 "[(False, True), (True, False), (False, False)]" False True] run1
  have 1: "\<exists>es e'. encoderRun (encoderInit 23 24 encoder_zero)
               ([(False, True), (True, False), (False, False)] @ [(False, True)]) = Some es \<and>
      state (last es) = 4 \<and>
      encoderDirection (last es) True False = Some e' \<and> direction e' = 0 \<and> state e' = 0"
    by auto
  from C4_illegal_code [of 23 24 "[(False, True)]" True False] run2
  have 2: "\<exists>es e'. encoderRun (encoderInit 23 24 encoder_zero) ([(False, True)] @ [(True, False)]) = Some es \<and>
      state (last es) AND 0xf = 0 \<and> True \<noteq> False \<and>
      fst (last [(False, True)]) = (\<not> True) \<and> snd (last [(False, True)]) = (\<not> False) \<and>
      encoderDirection (last es) False True = Some e' \<and> direction e' = 0 \<and> state e' = 4"
    by auto
  from 1 2 show ?thesis by simp
qed

theorem C4_back_to_start_counterexample:
  "encoderRun (encoderInit 23 24 encoder_zero) [(False, True), (True, False)]
     = Some [\<lparr>gpioA = 23, gpioB = 24, state = 4, direction = 0\<rparr>,
             \<lparr>gpioA = 23, gpioB = 24, state = 0, direction = 0\<rparr>] \<and>
   reachable \<lparr>gpioA = 23, gpioB = 24, state = 0, direction = 0\<rparr> \<and>
   encoderDirection \<lparr>gpioA = 23, gpioB = 24, state = 0, direction = 0\<rparr> (\<not> True) (\<not> False)
     = Some \<lparr>gpioA = 23, gpioB = 24, state = 4, direction = 0\<rparr> \<and>
   state \<lparr>gpioA = 23, gpioB = 24, state = 4, direction = 0\<rparr> \<noteq> 0"
proof -
  have run: "encoderRun (encoderInit 23 24 encoder_zero) [(False, True), (True, False)]
     = Some [\<lparr>gpioA = 23, gpioB = 24, state = 4, direction = 0\<rparr>,
             \<lparr>gpioA = 23, gpioB = 24, state = 0, direction = 0\<rparr>]"
    by (simp add: run_simps)
  from reachable_run [OF reachable.init run]
  have "reachable \<lparr>gpioA = 23, gpioB = 24, state = 0, direction = 0\<rparr>" by simp
  moreover have "encoderDirection \<lparr>gpioA = 23, gpioB = 24, state = 0, direction = 0\<rparr> (\<not> True) (\<not> False)
     = Some \<lparr>gpioA = 23, gpioB = 24, state = 4, direction = 0\<rparr>"
    by (simp add: run_simps)
  ultimately show ?thesis using run by simp
qed

section \<open>\<^verbatim>\<open>encoderPulse\<close> on an unchanged code\<close>

lemma pulseEncoded_cases:
  "pulseEncoded False False = 0" "pulseEncoded False True = 1"
  "pulseEncoded True False = 2" "pulseEncoded True True = 3"
  by (simp_all add: pulseEncoded_def digitalRead_def)

text \<open>
  A call that does not find the busy flag set runs to its end: it stores the code
  it sampled in \<^verbatim>\<open>lastEncoded\<close>, whatever was there before, and leaves the flag clear.
\<close>

lemma encoderPulse_stores_code:
  "\<not> inCriticalSection g \<Longrightarrow>
     lastEncoded (encoderPulse g levelA levelB) = pulseEncoded levelA levelB \<and>
     \<not> inCriticalSection (encoderPulse g levelA levelB)"
  by (simp add: encoderPulse_def Let_def)

text \<open>A call on a code equal to \<^verbatim>\<open>lastEncoded\<close> does not count.\<close>

lemma encoderPulse_same_code:
  assumes "pulseEncoded levelA levelB = lastEncoded g"
  shows "encoderPos (encoderPulse g levelA levelB) = encoderPos g"
    and "pulseSum (lastEncoded g) (pulseEncoded levelA levelB) \<in> {0b0000, 0b0101, 0b1010, 0b1111}"
    and "pulseSum (lastEncoded g) (pulseEncoded levelA levelB) \<notin> {0b1101, 0b0100, 0b0010, 0b1011}"
    and "pulseSum (lastEncoded g) (pulseEncoded levelA levelB) \<notin> {0b1110, 0b0111, 0b0001, 0b1000}"
proof -
  have l: "lastEncoded g = pulseEncoded levelA levelB" using assms by simp
  show "encoderPos (encoderPulse g levelA levelB) = encoderPos g"
    by (cases levelA; cases levelB)
       (simp_all add: encoderPulse_def Let_def l pulseEncoded_cases pulseSum_def)
  show "pulseSum (lastEncoded g) (pulseEncoded levelA levelB) \<in> {0b0000, 0b0101, 0b1010, 0b1111}"
    by (cases levelA; cases levelB) (simp_all add: l pulseEncoded_cases pulseSum_def)
  show "pulseSum (lastEncoded g) (pulseEncoded levelA levelB) \<notin> {0b1101, 0b0100, 0b0010, 0b1011}"
    by (cases levelA; cases levelB) (simp_all add: l pulseEncoded_cases pulseSum_def)
  show "pulseSum (lastEncoded g) (pulseEncoded levelA levelB) \<notin> {0b1110, 0b0111, 0b0001, 0b1000}"
    by (cases levelA; cases levelB) (simp_all add: l pulseEncoded_cases pulseSum_def)
qed

text \<open>
  C10. Whatever \<^verbatim>\<open>lastEncoded\<close> holds, a call of \<^verbatim>\<open>encoderPulse\<close> that samples a code
  equal to it leaves \<^verbatim>\<open>encoderPos\<close> as it was: the sum is then one of \<open>0b0000\<close>,
  \<open>0b0101\<close>, \<open>0b1010\<close>, \<open>0b1111\<close>, which is in neither pattern set. A call that runs to
  its end stores the code it sampled in \<^verbatim>\<open>lastEncoded\<close>, whatever the globals held
  before. Hence a duplicate call, a second call on the same levels right after any
  call, leaves \<^verbatim>\<open>encoderPos\<close> where the first call put it, and so does every further
  one: duplicate calls produce no tick.
\<close>

theorem C10_unchanged_code_no_tick:
  "(pulseEncoded levelA levelB = lastEncoded g \<longrightarrow>
      encoderPos (encoderPulse g levelA levelB) = encoderPos g \<and>
      pulseSum (lastEncoded g) (pulseEncoded levelA levelB) \<in> {0b0000, 0b0101, 0b1010, 0b1111} \<and>
      pulseSum (lastEncoded g) (pulseEncoded levelA levelB) \<notin> {0b1101, 0b0100, 0b0010, 0b1011} \<and>
      pulseSum (lastEncoded g) (pulseEncoded levelA levelB) \<notin> {0b1110, 0b0111, 0b0001, 0b1000}) \<and>
   (\<not> inCriticalSection g \<longrightarrow>
      lastEncoded (encoderPulse g levelA levelB) = pulseEncoded levelA levelB \<and>
      \<not> inCriticalSection (encoderPulse g levelA levelB)) \<and>
   encoderPos (encoderPulse (encoderPulse g levelA levelB) levelA levelB)
     = encoderPos (encoderPulse g levelA levelB) \<and>
   encoderPos (((\<lambda>h. encoderPulse h levelA levelB) ^^ Suc n) (encoderPulse g levelA levelB))
     = encoderPos (encoderPulse g levelA levelB)"
proof -
  let ?g1 = "encoderPulse g levelA levelB"
  have dup: "encoderPos (encoderPulse h levelA levelB) = encoderPos h \<and>
             (\<not> inCriticalSection h \<longrightarrow> pulseEncoded levelA levelB = lastEncoded (encoderPulse h levelA levelB)
                \<and> \<not> inCriticalSection (encoderPulse h levelA levelB)) \<and>
             (inCriticalSection h \<longrightarrow> encoderPulse h levelA levelB = h)"
    if "inCriticalSection h \<or> pulseEncoded levelA levelB = lastEncoded h" for h
  proof (cases "inCriticalSection h")
    case True
    then show ?thesis by (simp add: encoderPulse_def)
  next
    case False
    with that have "pulseEncoded levelA levelB = lastEncoded h" by simp
    from encoderPulse_same_code(1) [OF this] encoderPulse_stores_code [OF False, of levelA levelB]
    show ?thesis using False by simp
  qed
  have inv1: "inCriticalSection ?g1 \<or> pulseEncoded levelA levelB = lastEncoded ?g1"
  proof (cases "inCriticalSection g")
    case True
    then show ?thesis by (simp add: encoderPulse_def)
  next
    case False
    from encoderPulse_stores_code [OF False, of levelA levelB] show ?thesis by simp
  qed
  have iter: "(inCriticalSection (((\<lambda>h. encoderPulse h levelA levelB) ^^ k) ?g1) \<or>
                pulseEncoded levelA levelB = lastEncoded (((\<lambda>h. encoderPulse h levelA levelB) ^^ k) ?g1)) \<and>
              encoderPos (((\<lambda>h. encoderPulse h levelA levelB) ^^ k) ?g1) = encoderPos ?g1" for k
  proof (induction k)
    case 0
    show ?case using inv1 by simp
  next
    case (Suc k)
    let ?h = "((\<lambda>h. encoderPulse h levelA levelB) ^^ k) ?g1"
    from Suc.IH have h: "inCriticalSection ?h \<or> pulseEncoded levelA levelB = lastEncoded ?h"
      and p: "encoderPos ?h = encoderPos ?g1" by simp_all
    from dup [OF h] p show ?case by (cases "inCriticalSection ?h") auto
  qed
  have a: "pulseEncoded levelA levelB = lastEncoded g \<longrightarrow>
      encoderPos (encoderPulse g levelA levelB) = encoderPos g \<and>
      pulseSum (lastEncoded g) (pulseEncoded levelA levelB) \<in> {0b0000, 0b0101, 0b1010, 0b1111} \<and>
      pulseSum (lastEncoded g) (pulseEncoded levelA levelB) \<notin> {0b1101, 0b0100, 0b0010, 0b1011} \<and>
      pulseSum (lastEncoded g) (pulseEncoded levelA levelB) \<notin> {0b1110, 0b0111, 0b0001, 0b1000}"
    using encoderPulse_same_code [of levelA levelB g] by blast
  have b: "\<not> inCriticalSection g \<longrightarrow>
      lastEncoded (encoderPulse g levelA levelB) = pulseEncoded levelA levelB \<and>
      \<not> inCriticalSection (encoderPulse g levelA levelB)"
    using encoderPulse_stores_code [of g levelA levelB] by blast
  have c: "encoderPos (encoderPulse ?g1 levelA levelB) = encoderPos ?g1"
    using dup [OF inv1] by simp
  have d: "encoderPos (((\<lambda>h. encoderPulse h levelA levelB) ^^ Suc n) ?g1) = encoderPos ?g1"
    using iter [of "Suc n"] by blast
  from a b c d show ?thesis by blast
qed

theorem C10_unchanged_code_no_tick_witness:
  "encoderPulse \<lparr>encoderPos = 7, lastEncoded = 1, encoded = 0, inCriticalSection = False\<rparr> True True
     = \<lparr>encoderPos = 6, lastEncoded = 3, encoded = 0, inCriticalSection = False\<rparr> \<and>
   pulseEncoded True True
     = lastEncoded \<lparr>encoderPos = 6, lastEncoded = 3, encoded = 0, inCriticalSection = False\<rparr> \<and>
   \<not> inCriticalSection \<lparr>encoderPos = 6, lastEncoded = 3, encoded = 0, inCriticalSection = False\<rparr> \<and>
   encoderPos (encoderPulse
      \<lparr>encoderPos = 6, lastEncoded = 3, encoded = 0, inCriticalSection = False\<rparr> True True) = 6 \<and>
   pulseSum 3 (pulseEncoded True True) = 0b1111 \<and>
   lastEncoded (encoderPulse
      \<lparr>encoderPos = 6, lastEncoded = 3, encoded = 0, inCriticalSection = False\<rparr> True True) = 3 \<and>
   encoderPos (encoderPulse (encoderPulse
      \<lparr>encoderPos = 7, lastEncoded = 1, encoded = 0, inCriticalSection = False\<rparr> True True) True True)
     = 6"
proof -
  have first: "encoderPulse \<lparr>encoderPos = 7, lastEncoded = 1, encoded = 0, inCriticalSection = False\<rparr> True True
     = \<lparr>encoderPos = 6, lastEncoded = 3, encoded = 0, inCriticalSection = False\<rparr>"
    by (simp add: encoderPulse_def Let_def pulseEncoded_cases pulseSum_def)
  from C10_unchanged_code_no_tick
    [of True True "\<lparr>encoderPos = 6, lastEncoded = 3, encoded = 0, inCriticalSection = False\<rparr>" 0]
  have 1: "encoderPos (encoderPulse
      \<lparr>encoderPos = 6, lastEncoded = 3, encoded = 0, inCriticalSection = False\<rparr> True True) = 6 \<and>
     lastEncoded (encoderPulse
      \<lparr>encoderPos = 6, lastEncoded = 3, encoded = 0, inCriticalSection = False\<rparr> True True) = 3"
    by (simp add: pulseEncoded_cases)
  from C10_unchanged_code_no_tick
    [of True True "\<lparr>encoderPos = 7, lastEncoded = 1, encoded = 0, inCriticalSection = False\<rparr>" 0]
  have 2: "encoderPos (encoderPulse (encoderPulse
      \<lparr>encoderPos = 7, lastEncoded = 1, encoded = 0, inCriticalSection = False\<rparr> True True) True True)
     = 6"
    by (simp add: first)
  from first 1 2 show ?thesis by (simp add: pulseEncoded_cases pulseSum_def)
qed

end
